theory Spec2Isabelle
  imports Main
begin

section \<open>JavaScript values and built-ins the code relies on\<close>

text \<open>
  A JavaScript string is modelled as a \<open>string\<close> (a list of characters); the three
  separators the parser looks for (\<open>/\<close>, \<open>:\<close> and \<open>,\<close>) are single ASCII characters.
  Splitting and joining only compare characters with the separator, so they are defined
  for lists over any type of characters.
  An optional argument of type \<open>string | undefined\<close> is a \<open>string option\<close>, with
  \<open>None\<close> for \<open>undefined\<close>. An exception is a value of \<open>js_error\<close>, and a computation
  that can throw returns \<open>js_error + 'a\<close> (\<open>Inl\<close> the exception).
\<close>

datatype js_error = TypeError | Error string

text \<open>\<open>!v\<close> for \<open>v : string | undefined\<close>: true for \<open>undefined\<close> and for the empty string.\<close>

definition falsy :: "string option \<Rightarrow> bool" where
  "falsy v = (case v of None \<Rightarrow> True | Some s \<Rightarrow> s = [])"

text \<open>
  \<open>String.prototype.split\<close> with a one-character separator: search the next occurrence
  of the separator, cut the substring before it, and go on behind it. The text left when
  no separator remains is the last substring, so the result is never empty
  (\<open>"".split("/")\<close> is \<open>[""]\<close>).
\<close>

function js_split :: "'a \<Rightarrow> 'a list \<Rightarrow> 'a list list" where
  "js_split sep s =
     (case dropWhile (\<lambda>c. c \<noteq> sep) s of
        [] \<Rightarrow> [s]
      | _ # rest \<Rightarrow> takeWhile (\<lambda>c. c \<noteq> sep) s # js_split sep rest)"
  by pat_completeness auto
termination
proof (relation "measure (\<lambda>(sep, s). length s)")
  show "wf (measure (\<lambda>(sep, s). length s))" by simp
next
  fix sep :: 'a and s :: "'a list" and x rest
  assume "dropWhile (\<lambda>c. c \<noteq> sep) s = x # rest"
  then have "Suc (length rest) = length (dropWhile (\<lambda>c. c \<noteq> sep) s)" by simp
  also have "\<dots> \<le> length s" by (rule length_dropWhile_le)
  finally show "((sep, rest), (sep, s)) \<in> measure (\<lambda>(sep, s). length s)" by simp
qed

declare js_split.simps [simp del]

text \<open>\<open>s.split(sep, lim)\<close>: the first \<open>lim\<close> substrings of \<open>s.split(sep)\<close>.\<close>

definition js_split_limit :: "'a \<Rightarrow> nat \<Rightarrow> 'a list \<Rightarrow> 'a list list" where
  "js_split_limit sep lim s = take lim (js_split sep s)"

text \<open>
  The method call \<open>v.split(sep)\<close> on a value that may be \<open>undefined\<close>: reading a
  property of \<open>undefined\<close> throws a \<open>TypeError\<close>.
\<close>

definition method_split :: "string option \<Rightarrow> char \<Rightarrow> js_error + string list" where
  "method_split recv sep =
     (case recv of None \<Rightarrow> Inl TypeError | Some s \<Rightarrow> Inr (js_split sep s))"

text \<open>
  \<open>Array.prototype.map\<close> with a callback that may throw: the callback runs on the
  elements from left to right, and its first exception ends the call.
\<close>

fun array_map :: "('a \<Rightarrow> js_error + 'b) \<Rightarrow> 'a list \<Rightarrow> js_error + 'b list" where
  "array_map f [] = Inr []"
| "array_map f (x # xs) =
     (case f x of
        Inl e \<Rightarrow> Inl e
      | Inr y \<Rightarrow> (case array_map f xs of Inl e \<Rightarrow> Inl e | Inr ys \<Rightarrow> Inr (y # ys)))"

text \<open>\<open>.filter(e => e !== null)\<close>, with \<open>None\<close> for \<open>null\<close>.\<close>

fun filter_not_null :: "'a option list \<Rightarrow> 'a list" where
  "filter_not_null [] = []"
| "filter_not_null (None # rs) = filter_not_null rs"
| "filter_not_null (Some x # rs) = x # filter_not_null rs"

text \<open>
  A JavaScript \<open>Map\<close> is the list of its entries in insertion order, with distinct keys.
  \<open>Map.prototype.set\<close> replaces the value of a key that is present, at the place the key
  already has, and appends a new key at the end. \<open>new Map(entries)\<close> sets the entries one
  after the other on an empty map.
\<close>

type_synonym ('k, 'v) js_map = "('k \<times> 'v) list"

fun Map_set :: "('k, 'v) js_map \<Rightarrow> 'k \<Rightarrow> 'v \<Rightarrow> ('k, 'v) js_map" where
  "Map_set [] k v = [(k, v)]"
| "Map_set ((k', v') # m) k v =
     (if k' = k then (k, v) # m else (k', v') # Map_set m k v)"

definition new_Map :: "('k \<times> 'v) list \<Rightarrow> ('k, 'v) js_map" where
  "new_Map entries = foldl (\<lambda>m (k, v). Map_set m k v) [] entries"

definition Map_get :: "('k, 'v) js_map \<Rightarrow> 'k \<Rightarrow> 'v option" where
  "Map_get m k = map_of m k"

definition Map_keys :: "('k, 'v) js_map \<Rightarrow> 'k list" where
  "Map_keys m = map fst m"

text \<open>\<open>Array.prototype.join\<close>, the inverse of splitting; it only states the shape of inputs.\<close>

fun join :: "'a \<Rightarrow> 'a list list \<Rightarrow> 'a list" where
  "join sep [] = []"
| "join sep [x] = x"
| "join sep (x # y # ys) = x @ sep # join sep (y # ys)"

section \<open>parseEmoteOffsets\<close>

text \<open>
  The callback given to \<open>map\<close>. The destructuring \<open>[emoteId, placements] = emote.split(':', 2)\<close>
  reads the first two elements of the array; an element that is not there is \<open>undefined\<close>.
  The callback returns \<open>null\<close> (\<open>None\<close>) when \<open>placements\<close> is falsy.
\<close>

definition emote_entry :: "string \<Rightarrow> js_error + (string \<times> string list) option" where
  "emote_entry emote =
     (case js_split_limit CHR '':'' 2 emote of
        [] \<Rightarrow> Inr None
      | emoteId # rest \<Rightarrow>
          (let placements = (case rest of [] \<Rightarrow> None | p # _ \<Rightarrow> Some p) in
           if falsy placements then Inr None
           else (case method_split placements CHR '','' of
                   Inl e \<Rightarrow> Inl e
                 | Inr ps \<Rightarrow> Inr (Some (emoteId, ps)))))"

definition parseEmoteOffsets :: "string option \<Rightarrow> js_error + (string, string list) js_map" where
  "parseEmoteOffsets emotes =
     (if falsy emotes then Inr (new_Map [])
      else (case method_split emotes CHR ''/'' of
              Inl e \<Rightarrow> Inl e
            | Inr entries \<Rightarrow>
                (case array_map emote_entry entries of
                   Inl e \<Rightarrow> Inl e
                 | Inr rs \<Rightarrow> Inr (new_Map (filter_not_null rs)))))"

section \<open>HelixEventSubApi: createSubscription\<close>

text \<open>
  The transport options; \<open>createSubscription\<close> reads their \<open>method\<close> (here
  \<open>transport_method\<close>) and passes the whole object on. The record scheme leaves room for
  the callback, the secret or the session of a transport.
\<close>

record transport_options =
  transport_method :: string

text \<open>The JSON body of the request and the options given to \<open>callApi\<close>.\<close>

record ('c, 't) json_body =
  body_type :: string
  body_version :: string
  body_condition :: 'c
  body_transport :: 't
  is_batching_enabled :: "bool option"

record ('c, 't) api_call_options =
  call_type :: string
  url :: string
  http_method :: string
  scopes :: "string list option"
  userId :: "string option"
  forceType :: string
  jsonBody :: "('c, 't) json_body"

text \<open>
  \<open>!user\<close>. The type \<open>UserIdResolvable\<close> of the optional \<open>user\<close> argument is imported
  from another package, so the type of a user (\<open>'u\<close>), the boolean test of JavaScript on
  its values (\<open>truthy\<close>) and \<open>extractUserId\<close> are parameters. An argument that is left
  out is \<open>undefined\<close>, which is falsy. The examples of the class document user IDs given
  as strings, and a string is truthy when it is not empty.
\<close>

definition not_user :: "('u \<Rightarrow> bool) \<Rightarrow> 'u option \<Rightarrow> bool" where
  "not_user truthy user = (case user of None \<Rightarrow> True | Some u \<Rightarrow> \<not> truthy u)"

text \<open>
  \<open>createSubscription\<close>. \<open>callApi\<close> is the injected collaborator: it gets the options of
  one request and gives the \<open>data\<close> array of the response, or rejects. The function
  returns its outcome together with the requests it has issued, in order; the outcome of a
  call that went through is \<open>result.data[0]\<close>, \<open>None\<close> when the array is empty.
\<close>

definition createSubscription ::
  "('u \<Rightarrow> bool) \<Rightarrow> ('u \<Rightarrow> string)
     \<Rightarrow> (('c, 'a transport_options_scheme) api_call_options \<Rightarrow> js_error + 'd list)
     \<Rightarrow> string \<Rightarrow> string \<Rightarrow> 'c \<Rightarrow> 'a transport_options_scheme \<Rightarrow> 'u option
     \<Rightarrow> string list option \<Rightarrow> bool option
     \<Rightarrow> (js_error + 'd option) \<times> ('c, 'a transport_options_scheme) api_call_options list" where
  "createSubscription truthy extractUserId callApi type' version condition transport user
       requiredScopeSet isBatched =
     (let usesAppAuth = (transport_method transport = ''webhook'');
          scopes' = (if usesAppAuth then None else requiredScopeSet)
      in
        if \<not> usesAppAuth \<and> not_user truthy user then
          (Inl (Error (''Transport '' @ transport_method transport
                  @ '' can only handle subscriptions with user context'')), [])
        else
          (let jsonBody0 = \<lparr>body_type = type', body_version = version, body_condition = condition,
                 body_transport = transport, is_batching_enabled = None\<rparr>;
               jsonBody' = (if isBatched = Some True
                            then jsonBody0\<lparr>is_batching_enabled := Some True\<rparr> else jsonBody0);
               request = \<lparr>call_type = ''helix'', url = ''eventsub/subscriptions'',
                 http_method = ''POST'', scopes = scopes',
                 userId = map_option extractUserId user,
                 forceType = (if usesAppAuth then ''app'' else ''user''),
                 jsonBody = jsonBody'\<rparr>
           in
             (case callApi request of
                Inl e \<Rightarrow> (Inl e, [request])
              | Inr data \<Rightarrow> (Inr (case data of [] \<Rightarrow> None | d # _ \<Rightarrow> Some d), [request]))))"

section \<open>HelixEventSubApi: the sweep over the subscriptions\<close>

text \<open>
  A subscription record as the paginated source yields it. The sweep reads its \<open>status\<close>
  and calls its \<open>unsubscribe\<close> method; the record scheme leaves room for the other fields.
\<close>

record HelixEventSubSubscription =
  sub_id :: string
  status :: string

text \<open>
  The sweep acts on the outside world: it asks the asynchronous iterator for its next
  record, it evaluates the predicate, and it calls \<open>unsubscribe\<close>. The model threads the
  state of the outside world (\<open>'w\<close>) together with the list of the actions taken so far,
  oldest first. \<open>await\<close> is sequential composition: the state an awaited call returns is
  the state the next action starts from. A promise that rejects is \<open>Some e\<close>, one that
  resolves is \<open>None\<close>.

  The source is the list of what the iterator's successive \<open>next()\<close> calls give:
  \<open>Inr sub\<close> for a record, \<open>Inl e\<close> when fetching the next page fails; at the end of
  the list the iterator is done. \<open>unsubscribe\<close> is the record's method, an action on the
  outside world that may fail.
\<close>

datatype 'sub action = Request_next | Eval_cond 'sub | Unsubscribe 'sub

text \<open>\<open>await sub.unsubscribe()\<close>\<close>

definition await_unsubscribe ::
  "('sub \<Rightarrow> 'w \<Rightarrow> js_error option \<times> 'w) \<Rightarrow> 'sub \<Rightarrow> 'w \<times> 'sub action list
     \<Rightarrow> js_error option \<times> 'w \<times> 'sub action list" where
  "await_unsubscribe unsubscribe sub st =
     (case unsubscribe sub (fst st) of (r, w') \<Rightarrow> (r, w', snd st @ [Unsubscribe sub]))"

text \<open>
  The body of the loop, \<open>if (!cond || cond(sub)) { await sub.unsubscribe(); }\<close>: the
  predicate is not evaluated when none was given.
\<close>

definition loop_body ::
  "('sub \<Rightarrow> bool) option \<Rightarrow> ('sub \<Rightarrow> 'w \<Rightarrow> js_error option \<times> 'w) \<Rightarrow> 'sub
     \<Rightarrow> 'w \<times> 'sub action list \<Rightarrow> js_error option \<times> 'w \<times> 'sub action list" where
  "loop_body cond unsubscribe sub st =
     (case cond of
        None \<Rightarrow> await_unsubscribe unsubscribe sub st
      | Some c \<Rightarrow>
          (let st' = (fst st, snd st @ [Eval_cond sub]) in
           if c sub then await_unsubscribe unsubscribe sub st' else (None, st')))"

text \<open>
  \<open>for await (const sub of subsPaginator) { ... }\<close>: every turn first asks the iterator
  for its next record. A rejection, of the iterator or of the body, ends the loop and is
  the outcome.
\<close>

fun for_await ::
  "('sub \<Rightarrow> bool) option \<Rightarrow> ('sub \<Rightarrow> 'w \<Rightarrow> js_error option \<times> 'w) \<Rightarrow> (js_error + 'sub) list
     \<Rightarrow> 'w \<times> 'sub action list \<Rightarrow> js_error option \<times> 'w \<times> 'sub action list" where
  "for_await cond unsubscribe [] st = (None, fst st, snd st @ [Request_next])"
| "for_await cond unsubscribe (Inl e # rest) st = (Some e, fst st, snd st @ [Request_next])"
| "for_await cond unsubscribe (Inr sub # rest) st =
     (case loop_body cond unsubscribe sub (fst st, snd st @ [Request_next]) of
        (Some e, st') \<Rightarrow> (Some e, st')
      | (None, st') \<Rightarrow> for_await cond unsubscribe rest st')"

text \<open>
  \<open>_deleteSubscriptionsWithCondition\<close>; \<open>subsPaginator\<close> stands for what iterating
  \<open>this.getSubscriptionsPaginated()\<close> gives.
\<close>

definition deleteSubscriptionsWithCondition ::
  "('sub \<Rightarrow> bool) option \<Rightarrow> ('sub \<Rightarrow> 'w \<Rightarrow> js_error option \<times> 'w) \<Rightarrow> (js_error + 'sub) list
     \<Rightarrow> 'w \<Rightarrow> js_error option \<times> 'w \<times> 'sub action list" where
  "deleteSubscriptionsWithCondition cond unsubscribe subsPaginator w =
     for_await cond unsubscribe subsPaginator (w, [])"

definition deleteAllSubscriptions ::
  "('sub \<Rightarrow> 'w \<Rightarrow> js_error option \<times> 'w) \<Rightarrow> (js_error + 'sub) list
     \<Rightarrow> 'w \<Rightarrow> js_error option \<times> 'w \<times> 'sub action list" where
  "deleteAllSubscriptions unsubscribe subsPaginator w =
     deleteSubscriptionsWithCondition None unsubscribe subsPaginator w"

definition deleteBrokenSubscriptions ::
  "('a HelixEventSubSubscription_scheme \<Rightarrow> 'w \<Rightarrow> js_error option \<times> 'w)
     \<Rightarrow> (js_error + 'a HelixEventSubSubscription_scheme) list
     \<Rightarrow> 'w \<Rightarrow> js_error option \<times> 'w \<times> 'a HelixEventSubSubscription_scheme action list" where
  "deleteBrokenSubscriptions unsubscribe subsPaginator w =
     deleteSubscriptionsWithCondition
       (Some (\<lambda>sub. status sub \<noteq> ''enabled'' \<and> status sub \<noteq> ''webhook_callback_verification_pending''))
       unsubscribe subsPaginator w"

section \<open>Notions used to state the claims\<close>

text \<open>
  What the callback makes of one entry: \<open>Some (emoteId, placements)\<close> for an entry that
  reaches the map, \<open>None\<close> for one that is dropped.
\<close>

definition entry_of :: "string \<Rightarrow> (string \<times> string list) option" where
  "entry_of e = (case emote_entry e of Inl _ \<Rightarrow> None | Inr r \<Rightarrow> r)"

text \<open>
  The input the specification calls well formed, \<open>"id1:p1,p2/id2:p3"\<close>: entries joined by
  \<open>/\<close>, each an emoteId, a colon and a non-empty segment of placements joined by commas.
  No separator occurs inside an emoteId or a placement.
\<close>

definition render_entry :: "string \<times> string list \<Rightarrow> string" where
  "render_entry e = (case e of (emoteId, ps) \<Rightarrow> emoteId @ CHR '':'' # join CHR '','' ps)"

definition render :: "(string \<times> string list) list \<Rightarrow> string" where
  "render es = join CHR ''/'' (map render_entry es)"

definition wf_entry :: "string \<times> string list \<Rightarrow> bool" where
  "wf_entry e =
     (case e of (emoteId, ps) \<Rightarrow>
        CHR ''/'' \<notin> set emoteId \<and> CHR '':'' \<notin> set emoteId \<and> join CHR '','' ps \<noteq> [] \<and>
        list_all (\<lambda>p. CHR ''/'' \<notin> set p \<and> CHR '':'' \<notin> set p \<and> CHR '','' \<notin> set p) ps)"

text \<open>
  The records the sweep is to unsubscribe, the actions one record brings about when nothing
  fails, and the records a list of actions called \<open>unsubscribe\<close> on, in order.
\<close>

definition selected :: "('sub \<Rightarrow> bool) option \<Rightarrow> 'sub \<Rightarrow> bool" where
  "selected cond sub = (case cond of None \<Rightarrow> True | Some c \<Rightarrow> c sub)"

definition record_actions :: "('sub \<Rightarrow> bool) option \<Rightarrow> 'sub \<Rightarrow> 'sub action list" where
  "record_actions cond sub =
     Request_next # (case cond of None \<Rightarrow> [] | Some c \<Rightarrow> [Eval_cond sub])
       @ (if selected cond sub then [Unsubscribe sub] else [])"

fun unsubscribed :: "'sub action list \<Rightarrow> 'sub list" where
  "unsubscribed [] = []"
| "unsubscribed (Unsubscribe sub # as) = sub # unsubscribed as"
| "unsubscribed (_ # as) = unsubscribed as"

section \<open>Facts about the built-ins\<close>

subsection \<open>split and join\<close>

lemma dropWhile_no_sep: "sep \<notin> set s \<Longrightarrow> dropWhile (\<lambda>c. c \<noteq> sep) s = []"
  by (induction s) auto

lemma takeWhile_no_sep: "sep \<notin> set s \<Longrightarrow> takeWhile (\<lambda>c. c \<noteq> sep) s = s"
  by (induction s) auto

lemma js_split_no_sep: "sep \<notin> set s \<Longrightarrow> js_split sep s = [s]"
  by (simp add: js_split.simps [of sep s] dropWhile_no_sep)

lemma js_split_append_sep:
  "sep \<notin> set a \<Longrightarrow> js_split sep (a @ sep # b) = a # js_split sep b"
proof -
  assume a: "sep \<notin> set a"
  then have d: "dropWhile (\<lambda>c. c \<noteq> sep) (a @ sep # b) = sep # b"
    by (induction a) auto
  from a have t: "takeWhile (\<lambda>c. c \<noteq> sep) (a @ sep # b) = a"
    by (induction a) auto
  show ?thesis
    by (subst js_split.simps) (simp add: d t)
qed

lemma js_split_not_Nil: "js_split sep s \<noteq> []"
  by (subst js_split.simps) (simp split: list.splits)

lemma js_split_first: "\<exists>ws. js_split sep s = takeWhile (\<lambda>c. c \<noteq> sep) s # ws"
proof (cases "dropWhile (\<lambda>c. c \<noteq> sep) s")
  case Nil
  then have "sep \<notin> set s" by auto
  then show ?thesis by (simp add: js_split_no_sep takeWhile_no_sep)
next
  case (Cons c rest)
  then show ?thesis by (subst js_split.simps) simp
qed

lemma js_split_join:
  "xs \<noteq> [] \<Longrightarrow> \<forall>x\<in>set xs. sep \<notin> set x \<Longrightarrow> js_split sep (join sep xs) = xs"
proof (induction sep xs rule: join.induct)
  case (1 sep)
  then show ?case by simp
next
  case (2 sep x)
  then show ?case by (simp add: js_split_no_sep)
next
  case (3 sep x y ys)
  then show ?case by (simp add: js_split_append_sep)
qed

lemma js_split_parts_no_sep: "x \<in> set (js_split sep s) \<Longrightarrow> sep \<notin> set x"
proof (induction sep s arbitrary: x rule: js_split.induct)
  case (1 sep s)
  show ?case
  proof (cases "dropWhile (\<lambda>c. c \<noteq> sep) s")
    case Nil
    then have "sep \<notin> set s" by auto
    with "1.prems" show ?thesis by (simp add: js_split_no_sep)
  next
    case (Cons c rest)
    with "1.prems" have "x = takeWhile (\<lambda>c. c \<noteq> sep) s \<or> x \<in> set (js_split sep rest)"
      by (simp add: js_split.simps [of sep s])
    then show ?thesis
    proof
      assume "x = takeWhile (\<lambda>c. c \<noteq> sep) s"
      then show ?thesis by (auto dest: set_takeWhileD)
    next
      assume "x \<in> set (js_split sep rest)"
      with "1.IH" Cons show ?thesis by blast
    qed
  qed
qed

lemma join_js_split: "join sep (js_split sep s) = s"
proof (induction sep s rule: js_split.induct)
  case (1 sep s)
  show ?case
  proof (cases "dropWhile (\<lambda>c. c \<noteq> sep) s")
    case Nil
    then have "sep \<notin> set s" by auto
    then show ?thesis by (simp add: js_split_no_sep)
  next
    case (Cons c rest)
    then have c: "c = sep" using hd_dropWhile [of "\<lambda>c. c \<noteq> sep" s] by simp
    obtain y ys where ys: "js_split sep rest = y # ys"
      using js_split_not_Nil [of sep rest] by (cases "js_split sep rest") auto
    have "join sep (js_split sep s) = takeWhile (\<lambda>c. c \<noteq> sep) s @ sep # join sep (js_split sep rest)"
      using Cons ys by (simp add: js_split.simps [of sep s])
    also have "\<dots> = takeWhile (\<lambda>c. c \<noteq> sep) s @ sep # rest"
      using "1.IH" Cons by simp
    also have "\<dots> = takeWhile (\<lambda>c. c \<noteq> sep) s @ dropWhile (\<lambda>c. c \<noteq> sep) s"
      using Cons c by simp
    finally show ?thesis by simp
  qed
qed

lemma join_eq_Nil: "join sep xs = [] \<longleftrightarrow> xs = [] \<or> xs = [[]]"
  by (induction sep xs rule: join.induct) auto

subsection \<open>Map.set and new Map\<close>

lemma map_of_Map_set: "map_of (Map_set m k v) = (map_of m)(k \<mapsto> v)"
  by (induction m k v rule: Map_set.induct) (auto simp: fun_eq_iff)

lemma keys_Map_set: "set (map fst (Map_set m k v)) = insert k (set (map fst m))"
  by (induction m k v rule: Map_set.induct) auto

lemma distinct_Map_set: "distinct (map fst m) \<Longrightarrow> distinct (map fst (Map_set m k v))"
  by (induction m k v rule: Map_set.induct) (auto simp: keys_Map_set simp flip: set_map)

lemma Map_set_fresh: "k \<notin> set (map fst m) \<Longrightarrow> Map_set m k v = m @ [(k, v)]"
  by (induction m k v rule: Map_set.induct) auto

lemma map_of_foldl_Map_set:
  "map_of (foldl (\<lambda>m (k, v). Map_set m k v) m es) = map_of m ++ map_of (rev es)"
proof (induction es arbitrary: m)
  case Nil
  then show ?case by simp
next
  case (Cons e es)
  obtain k v where e: "e = (k, v)" by (cases e)
  show ?case
    by (simp add: Cons.IH e map_of_Map_set map_add_upd_left fun_eq_iff map_add_def split: option.splits)
qed

lemma keys_foldl_Map_set:
  "set (map fst (foldl (\<lambda>m (k, v). Map_set m k v) m es)) = set (map fst m) \<union> set (map fst es)"
proof (induction es arbitrary: m)
  case Nil
  then show ?case by simp
next
  case (Cons e es)
  obtain k v where e: "e = (k, v)" by (cases e)
  show ?case
    by (simp add: Cons.IH e keys_Map_set del: set_map)
qed

lemma distinct_foldl_Map_set:
  "distinct (map fst m) \<Longrightarrow> distinct (map fst (foldl (\<lambda>m (k, v). Map_set m k v) m es))"
proof (induction es arbitrary: m)
  case Nil
  then show ?case by simp
next
  case (Cons e es)
  obtain k v where e: "e = (k, v)" by (cases e)
  from Cons.prems show ?case
    by (simp add: Cons.IH e distinct_Map_set)
qed

lemma foldl_Map_set_distinct:
  "distinct (map fst (m @ es)) \<Longrightarrow> foldl (\<lambda>m (k, v). Map_set m k v) m es = m @ es"
proof (induction es arbitrary: m)
  case Nil
  then show ?case by simp
next
  case (Cons e es)
  obtain k v where e: "e = (k, v)" by (cases e)
  from Cons.prems e have fresh: "k \<notin> set (map fst m)" by auto
  from Cons.prems e have "distinct (map fst ((m @ [(k, v)]) @ es))" by auto
  then have "foldl (\<lambda>m (k, v). Map_set m k v) (m @ [(k, v)]) es = (m @ [(k, v)]) @ es"
    by (rule Cons.IH)
  then show ?case by (simp add: e Map_set_fresh [OF fresh])
qed

lemma Map_get_new_Map: "Map_get (new_Map es) k = map_of (rev es) k"
  by (simp add: Map_get_def new_Map_def map_of_foldl_Map_set)

lemma Map_keys_new_Map: "set (Map_keys (new_Map es)) = fst ` set es"
  by (simp add: Map_keys_def new_Map_def keys_foldl_Map_set del: set_map) simp

lemma distinct_Map_keys_new_Map: "distinct (Map_keys (new_Map es))"
  by (simp add: Map_keys_def new_Map_def distinct_foldl_Map_set)

lemma new_Map_distinct: "distinct (map fst es) \<Longrightarrow> new_Map es = es"
  using foldl_Map_set_distinct [of "[]" es] by (simp add: new_Map_def)

lemma new_Map_Nil: "new_Map [] = []"
  by (simp add: new_Map_def)

section \<open>Facts about parseEmoteOffsets\<close>

lemma emote_entry_colon:
  assumes "CHR '':'' \<notin> set i"
  shows "emote_entry (i @ CHR '':'' # rest) =
    Inr (if takeWhile (\<lambda>c. c \<noteq> CHR '':'') rest = [] then None
         else Some (i, js_split CHR '','' (takeWhile (\<lambda>c. c \<noteq> CHR '':'') rest)))"
proof -
  obtain ws where ws: "js_split CHR '':'' rest = takeWhile (\<lambda>c. c \<noteq> CHR '':'') rest # ws"
    using js_split_first [of "CHR '':''" rest] by blast
  show ?thesis
    by (simp add: emote_entry_def js_split_limit_def js_split_append_sep [OF assms] ws
        falsy_def method_split_def)
qed

lemma emote_entry_no_colon:
  assumes "CHR '':'' \<notin> set e"
  shows "emote_entry e = Inr None"
  by (simp add: emote_entry_def js_split_limit_def js_split_no_sep [OF assms] falsy_def)

lemma emote_entry_total: "emote_entry e = Inr (entry_of e)"
proof (cases "CHR '':'' \<in> set e")
  case True
  then obtain i rest where "e = i @ CHR '':'' # rest" "CHR '':'' \<notin> set i"
    by (auto dest: split_list_first)
  then show ?thesis by (simp add: entry_of_def emote_entry_colon)
next
  case False
  then show ?thesis by (simp add: entry_of_def emote_entry_no_colon)
qed

lemma emote_entry_Some_iff:
  "emote_entry e = Inr (Some (k, ps)) \<longleftrightarrow>
     (\<exists>rest. e = k @ CHR '':'' # rest \<and> CHR '':'' \<notin> set k
        \<and> takeWhile (\<lambda>c. c \<noteq> CHR '':'') rest \<noteq> []
        \<and> ps = js_split CHR '','' (takeWhile (\<lambda>c. c \<noteq> CHR '':'') rest))"
proof
  assume a: "emote_entry e = Inr (Some (k, ps))"
  then have "CHR '':'' \<in> set e"
    using emote_entry_no_colon [of e] by auto
  then obtain i rest where e: "e = i @ CHR '':'' # rest" and i: "CHR '':'' \<notin> set i"
    by (auto dest: split_list_first)
  from a have "takeWhile (\<lambda>c. c \<noteq> CHR '':'') rest \<noteq> [] \<and> k = i
      \<and> ps = js_split CHR '','' (takeWhile (\<lambda>c. c \<noteq> CHR '':'') rest)"
    unfolding e emote_entry_colon [OF i] by (auto split: if_splits)
  with e i show "\<exists>rest. e = k @ CHR '':'' # rest \<and> CHR '':'' \<notin> set k
      \<and> takeWhile (\<lambda>c. c \<noteq> CHR '':'') rest \<noteq> []
      \<and> ps = js_split CHR '','' (takeWhile (\<lambda>c. c \<noteq> CHR '':'') rest)"
    by blast
next
  assume "\<exists>rest. e = k @ CHR '':'' # rest \<and> CHR '':'' \<notin> set k
      \<and> takeWhile (\<lambda>c. c \<noteq> CHR '':'') rest \<noteq> []
      \<and> ps = js_split CHR '','' (takeWhile (\<lambda>c. c \<noteq> CHR '':'') rest)"
  then show "emote_entry e = Inr (Some (k, ps))"
    by (auto simp: emote_entry_colon)
qed

lemma array_map_emote_entry: "array_map emote_entry es = Inr (map entry_of es)"
  by (induction es) (simp_all add: emote_entry_total)

lemma filter_not_null_map: "filter_not_null (map f xs) = List.map_filter f xs"
  by (induction xs) (auto simp: List.map_filter_simps split: option.splits)

lemma entry_of_Nil: "entry_of [] = None"
  using emote_entry_no_colon [of "[]"] by (simp add: entry_of_def)

lemma parseEmoteOffsets_Some:
  "parseEmoteOffsets (Some s) =
     Inr (new_Map (List.map_filter entry_of (js_split CHR ''/'' s)))"
proof (cases "s = []")
  case True
  then show ?thesis
    by (simp add: parseEmoteOffsets_def falsy_def js_split_no_sep List.map_filter_simps entry_of_Nil)
next
  case False
  then show ?thesis
    by (simp add: parseEmoteOffsets_def falsy_def method_split_def array_map_emote_entry
        filter_not_null_map)
qed

lemma parseEmoteOffsets_join:
  assumes "\<forall>e\<in>set es. CHR ''/'' \<notin> set e"
  shows "parseEmoteOffsets (Some (join CHR ''/'' es)) = Inr (new_Map (List.map_filter entry_of es))"
proof (cases "es = []")
  case True
  then show ?thesis
    by (simp add: parseEmoteOffsets_Some js_split_no_sep List.map_filter_simps entry_of_Nil)
next
  case False
  with assms show ?thesis
    by (simp add: parseEmoteOffsets_Some js_split_join)
qed

lemma map_filter_append:
  "List.map_filter f (xs @ ys) = List.map_filter f xs @ List.map_filter f ys"
  by (simp add: List.map_filter_def)

lemma entry_of_render_entry:
  assumes "wf_entry e"
  shows "entry_of (render_entry e) = Some e"
proof -
  obtain i ps where e: "e = (i, ps)" by (cases e)
  from assms e have i: "CHR '':'' \<notin> set i" and ne: "join CHR '','' ps \<noteq> []"
    and ps: "\<forall>p\<in>set ps. CHR '':'' \<notin> set p \<and> CHR '','' \<notin> set p"
    by (auto simp: wf_entry_def list_all_iff)
  from ne have ps_ne: "ps \<noteq> []" by auto
  have no_colon: "CHR '':'' \<notin> set (join CHR '','' ps)"
    using ps by (induction "CHR '',''" ps rule: join.induct) auto
  have "js_split CHR '','' (join CHR '','' ps) = ps"
    using ps_ne ps by (simp add: js_split_join)
  then show ?thesis
    using ne by (simp add: entry_of_def render_entry_def e emote_entry_colon [OF i]
        takeWhile_no_sep [OF no_colon])
qed

lemma render_entry_no_slash:
  assumes "wf_entry e"
  shows "CHR ''/'' \<notin> set (render_entry e)"
proof -
  obtain i ps where e: "e = (i, ps)" by (cases e)
  from assms e have i: "CHR ''/'' \<notin> set i"
    and ps: "\<forall>p\<in>set ps. CHR ''/'' \<notin> set p"
    by (auto simp: wf_entry_def list_all_iff)
  have "CHR ''/'' \<notin> set (join CHR '','' ps)"
    using ps by (induction "CHR '',''" ps rule: join.induct) auto
  with i show ?thesis by (simp add: render_entry_def e)
qed

lemma map_filter_render:
  "\<forall>e\<in>set es. wf_entry e \<Longrightarrow> List.map_filter entry_of (map render_entry es) = es"
  by (induction es) (simp_all add: List.map_filter_simps entry_of_render_entry)

section \<open>Facts about the sweep\<close>

lemma loop_body_trace:
  "loop_body cond unsubscribe sub (w, t @ [Request_next]) = (r, w', t') \<Longrightarrow>
     t' = t @ record_actions cond sub"
  by (auto simp: loop_body_def await_unsubscribe_def record_actions_def selected_def Let_def
      split: option.splits prod.splits if_splits)

lemma loop_body_not_selected:
  "\<not> selected cond sub \<Longrightarrow> loop_body cond unsubscribe sub (w, t) = (None, w, t @ [Eval_cond sub])"
  by (auto simp: loop_body_def selected_def Let_def split: option.splits)

lemma loop_body_selected:
  "selected cond sub \<Longrightarrow> unsubscribe sub w = (r, w') \<Longrightarrow>
     loop_body cond unsubscribe sub (w, t) =
       (r, w', t @ (case cond of None \<Rightarrow> [] | Some c \<Rightarrow> [Eval_cond sub]) @ [Unsubscribe sub])"
  by (auto simp: loop_body_def await_unsubscribe_def selected_def Let_def split: option.splits)

lemma for_await_success_trace:
  "for_await cond unsubscribe (map Inr xs) (w, t) = (None, w', t') \<Longrightarrow>
     t' = t @ concat (map (record_actions cond) xs) @ [Request_next]"
proof (induction xs arbitrary: w t)
  case Nil
  then show ?case by simp
next
  case (Cons x xs)
  obtain r w1 t1 where body: "loop_body cond unsubscribe x (w, t @ [Request_next]) = (r, w1, t1)"
    by (metis prod_cases3)
  then have t1: "t1 = t @ record_actions cond x" by (rule loop_body_trace)
  from Cons.prems body have r: "r = None" by (cases r) auto
  with Cons.prems body have "for_await cond unsubscribe (map Inr xs) (w1, t1) = (None, w', t')"
    by simp
  then have "t' = t1 @ concat (map (record_actions cond) xs) @ [Request_next]"
    by (rule Cons.IH)
  with t1 show ?case by simp
qed

lemma unsubscribed_append: "unsubscribed (as @ bs) = unsubscribed as @ unsubscribed bs"
  by (induction as rule: unsubscribed.induct) auto

lemma unsubscribed_record_actions:
  "unsubscribed (record_actions cond sub) = (if selected cond sub then [sub] else [])"
  by (simp add: record_actions_def unsubscribed_append split: option.splits)

lemma unsubscribed_concat:
  "unsubscribed (concat (map (record_actions cond) xs)) = filter (selected cond) xs"
  by (induction xs) (simp_all add: unsubscribed_append unsubscribed_record_actions)

lemma for_await_no_failure:
  "\<forall>s w. fst (unsubscribe s w) = None \<Longrightarrow> fst (for_await cond unsubscribe (map Inr xs) st) = None"
proof (induction xs arbitrary: st)
  case Nil
  then show ?case by simp
next
  case (Cons x xs)
  have b: "fst (loop_body cond unsubscribe x st') = None" for st'
    using Cons.prems
    by (auto simp: loop_body_def await_unsubscribe_def Let_def split: option.splits prod.splits;
        metis fst_conv)
  show ?case
  proof (cases "loop_body cond unsubscribe x (fst st, snd st @ [Request_next])")
    case (fields r w1 t1)
    with b [of "(fst st, snd st @ [Request_next])"] have "r = None" by simp
    with fields Cons.IH [OF Cons.prems, of "(w1, t1)"] show ?thesis by simp
  qed
qed

lemma loop_body_sound:
  "loop_body cond unsubscribe sub (w, t) = (r, w', t') \<Longrightarrow> Unsubscribe s \<in> set t' \<Longrightarrow>
     Unsubscribe s \<in> set t \<or> selected cond s"
  by (auto simp: loop_body_def await_unsubscribe_def selected_def Let_def
      split: option.splits prod.splits if_splits)

lemma for_await_sound:
  "for_await cond unsubscribe src (w, t) = (r, w', t') \<Longrightarrow> Unsubscribe s \<in> set t' \<Longrightarrow>
     Unsubscribe s \<in> set t \<or> selected cond s"
proof (induction cond unsubscribe src "(w, t)" arbitrary: w t rule: for_await.induct)
  case (1 cond unsubscribe)
  then show ?case by auto
next
  case (2 cond unsubscribe e rest)
  then show ?case by auto
next
  case (3 cond unsubscribe sub rest)
  obtain r1 w1 t1 where body: "loop_body cond unsubscribe sub (w, t @ [Request_next]) = (r1, w1, t1)"
    by (metis prod_cases3)
  show ?case
  proof (cases r1)
    case None
    with "3.prems" body have "for_await cond unsubscribe rest (w1, t1) = (r, w', t')" by simp
    with "3.hyps" [OF _ _ _ "3.prems"(2)] body None
    have "Unsubscribe s \<in> set t1 \<or> selected cond s" by auto
    with loop_body_sound [OF body] show ?thesis by auto
  next
    case (Some e)
    with "3.prems" body have "t' = t1" by simp
    with loop_body_sound [OF body] "3.prems"(2) show ?thesis by auto
  qed
qed

lemma for_await_success_Inr:
  "for_await cond unsubscribe src st = (None, st1) \<Longrightarrow> \<exists>xs. src = map Inr xs"
proof (induction cond unsubscribe src st rule: for_await.induct)
  case (1 cond unsubscribe st)
  then show ?case by simp
next
  case (2 cond unsubscribe e rest st)
  then show ?case by simp
next
  case (3 cond unsubscribe sub rest st)
  then obtain st' where body: "loop_body cond unsubscribe sub (fst st, snd st @ [Request_next]) = (None, st')"
    and rest: "for_await cond unsubscribe rest st' = (None, st1)"
    by (auto split: prod.splits option.splits)
  from "3.IH" [OF body [symmetric] refl rest] obtain xs where xs: "rest = map Inr xs" by blast
  show ?case by (rule exI [of _ "sub # xs"]) (simp add: xs)
qed

lemma for_await_prefix:
  "for_await cond unsubscribe xs st = (None, st1) \<Longrightarrow>
     for_await cond unsubscribe (xs @ y # ys) st =
       (case y of
          Inl e \<Rightarrow> (Some e, st1)
        | Inr sub \<Rightarrow>
            (case loop_body cond unsubscribe sub st1 of
               (Some e, st') \<Rightarrow> (Some e, st')
             | (None, st') \<Rightarrow> for_await cond unsubscribe ys st'))"
proof (induction cond unsubscribe xs st rule: for_await.induct)
  case (1 cond unsubscribe st)
  then show ?case by (cases y) auto
next
  case (2 cond unsubscribe e rest st)
  then show ?case by simp
next
  case (3 cond unsubscribe sub rest st)
  then show ?case by (auto split: prod.splits option.splits)
qed

lemma for_await_unsubscribed_prefix:
  "for_await cond unsubscribe (map Inr xs) (w, t) = (r, w', t') \<Longrightarrow>
     \<exists>n. unsubscribed t' = unsubscribed t @ take n (filter (selected cond) xs)"
proof (induction xs arbitrary: w t)
  case Nil
  then show ?case by (auto simp: unsubscribed_append)
next
  case (Cons x xs)
  obtain r1 w1 t1 where body: "loop_body cond unsubscribe x (w, t @ [Request_next]) = (r1, w1, t1)"
    by (metis prod_cases3)
  then have t1: "t1 = t @ record_actions cond x" by (rule loop_body_trace)
  then have u1: "unsubscribed t1 = unsubscribed t @ (if selected cond x then [x] else [])"
    by (simp add: unsubscribed_append unsubscribed_record_actions)
  show ?case
  proof (cases r1)
    case None
    with Cons.prems body have "for_await cond unsubscribe (map Inr xs) (w1, t1) = (r, w', t')"
      by simp
    then obtain n where "unsubscribed t' = unsubscribed t1 @ take n (filter (selected cond) xs)"
      using Cons.IH by blast
    with u1 have "unsubscribed t' = unsubscribed t @
        take (if selected cond x then Suc n else n) (filter (selected cond) (x # xs))"
      by simp
    then show ?thesis by blast
  next
    case (Some e)
    with Cons.prems body have "t' = t1" by simp
    with u1 have "unsubscribed t' = unsubscribed t @
        take (if selected cond x then 1 else 0) (filter (selected cond) (x # xs))"
      by simp
    then show ?thesis by blast
  qed
qed

lemma loop_body_world:
  "loop_body cond unsubscribe sub (w, t) = (r, w', t') \<Longrightarrow>
     w' = (if selected cond sub then snd (unsubscribe sub w) else w)
     \<and> r = (if selected cond sub then fst (unsubscribe sub w) else None)"
  by (auto simp: loop_body_def await_unsubscribe_def selected_def Let_def
      split: option.splits prod.splits if_splits)

lemma for_await_world:
  "for_await cond unsubscribe src (w, t) = (r, w', t') \<Longrightarrow>
     \<exists>us. unsubscribed t' = unsubscribed t @ us
       \<and> w' = foldl (\<lambda>v sub. snd (unsubscribe sub v)) w us"
proof (induction src arbitrary: w t)
  case Nil
  then have "unsubscribed t' = unsubscribed t @ [] \<and> w' = foldl (\<lambda>v sub. snd (unsubscribe sub v)) w []"
    by (auto simp: unsubscribed_append)
  then show ?case by blast
next
  case (Cons y src)
  show ?case
  proof (cases y)
    case (Inl e)
    with Cons.prems
    have "unsubscribed t' = unsubscribed t @ [] \<and> w' = foldl (\<lambda>v sub. snd (unsubscribe sub v)) w []"
      by (auto simp: unsubscribed_append)
    then show ?thesis by blast
  next
    case (Inr x)
    obtain r1 w1 t1 where body: "loop_body cond unsubscribe x (w, t @ [Request_next]) = (r1, w1, t1)"
      by (metis prod_cases3)
    then have t1: "t1 = t @ record_actions cond x" by (rule loop_body_trace)
    then have u1: "unsubscribed t1 = unsubscribed t @ (if selected cond x then [x] else [])"
      by (simp add: unsubscribed_append unsubscribed_record_actions)
    from loop_body_world [OF body]
    have w1: "w1 = foldl (\<lambda>v sub. snd (unsubscribe sub v)) w (if selected cond x then [x] else [])"
      by simp
    show ?thesis
    proof (cases r1)
      case None
      with Cons.prems body Inr have "for_await cond unsubscribe src (w1, t1) = (r, w', t')"
        by simp
      then obtain us where us: "unsubscribed t' = unsubscribed t1 @ us"
          "w' = foldl (\<lambda>v sub. snd (unsubscribe sub v)) w1 us"
        using Cons.IH by blast
      have "unsubscribed t' = unsubscribed t @ ((if selected cond x then [x] else []) @ us)
          \<and> w' = foldl (\<lambda>v sub. snd (unsubscribe sub v)) w
                ((if selected cond x then [x] else []) @ us)"
        using us u1 w1 by simp
      then show ?thesis by blast
    next
      case (Some e)
      with Cons.prems body Inr have "t' = t1" "w' = w1" by simp_all
      with u1 w1 show ?thesis by blast
    qed
  qed
qed

lemma for_await_complete:
  assumes "for_await cond unsubscribe (map Inr xs) (w, []) = (None, w', tr)"
  shows "tr = concat (map (record_actions cond) xs) @ [Request_next]
    \<and> unsubscribed tr = filter (selected cond) xs
    \<and> w' = foldl (\<lambda>v sub. snd (unsubscribe sub v)) w (filter (selected cond) xs)"
proof -
  from assms have "tr = [] @ concat (map (record_actions cond) xs) @ [Request_next]"
    by (rule for_await_success_trace)
  then have tr: "tr = concat (map (record_actions cond) xs) @ [Request_next]" by simp
  then have un: "unsubscribed tr = filter (selected cond) xs"
    by (simp add: unsubscribed_append unsubscribed_concat)
  from for_await_world [OF assms]
  have "w' = foldl (\<lambda>v sub. snd (unsubscribe sub v)) w (unsubscribed tr)"
    by simp
  with tr un show ?thesis by simp
qed

section \<open>Claims about parseEmoteOffsets\<close>

text \<open>
  C1: for every well-formed input \<open>"id1:p1,p2/id2:p3"\<close> (entries joined by \<open>/\<close>, each an
  emoteId, a colon and a non-empty comma-separated placements segment), parseEmoteOffsets
  returns the map built from the listed entries: its keys are exactly the listed emoteIds,
  the value of a key is the placement sequence of the (last) entry listing it, and when the
  emoteIds are pairwise different the map holds the entries as listed, in input order. The
  instance \<open>"25:0-4,12-16/1902:6-10"\<close> follows it.
\<close>

theorem parseEmoteOffsets_well_formed:
  assumes "\<forall>e\<in>set es. wf_entry e"
  shows "parseEmoteOffsets (Some (render es)) = Inr (new_Map es)
    \<and> set (Map_keys (new_Map es)) = fst ` set es
    \<and> (\<forall>k. Map_get (new_Map es) k = map_of (rev es) k)
    \<and> (distinct (map fst es) \<longrightarrow> new_Map es = es)"
proof -
  have "\<forall>e\<in>set (map render_entry es). CHR ''/'' \<notin> set e"
    using assms by (auto simp: render_entry_no_slash)
  then have "parseEmoteOffsets (Some (render es)) =
      Inr (new_Map (List.map_filter entry_of (map render_entry es)))"
    unfolding render_def by (rule parseEmoteOffsets_join)
  then have "parseEmoteOffsets (Some (render es)) = Inr (new_Map es)"
    using assms by (simp add: map_filter_render)
  then show ?thesis
    by (simp add: Map_keys_new_Map Map_get_new_Map new_Map_distinct)
qed

theorem parseEmoteOffsets_well_formed_witness:
  "parseEmoteOffsets (Some ''25:0-4,12-16/1902:6-10'') =
     Inr [(''25'', [''0-4'', ''12-16'']), (''1902'', [''6-10''])]
   \<and> Map_get [(''25'', [''0-4'', ''12-16'']), (''1902'', [''6-10''])] ''1902'' = Some [''6-10'']"
  using parseEmoteOffsets_well_formed [of "[(''25'', [''0-4'', ''12-16'']), (''1902'', [''6-10''])]"]
  by (simp add: wf_entry_def render_def render_entry_def Map_get_def)

text \<open>
  C3: for every input string and every \<open>/\<close>-separated entry of it that has no colon, or
  whose colon is immediately followed by the end of the entry, the callback returns
  \<open>null\<close> without throwing, and the result is the one of the input without that entry:
  the entry adds no key and its siblings are parsed as they would be without it.
\<close>

theorem parseEmoteOffsets_drops_entry:
  assumes "js_split CHR ''/'' s = es1 @ bad # es2"
    and "CHR '':'' \<notin> set bad \<or> (\<exists>i. bad = i @ [CHR '':''] \<and> CHR '':'' \<notin> set i)"
  shows "emote_entry bad = Inr None
    \<and> parseEmoteOffsets (Some s) = parseEmoteOffsets (Some (join CHR ''/'' (es1 @ es2)))
    \<and> (\<exists>m. parseEmoteOffsets (Some s) = Inr m)"
proof -
  from assms(2) have bad: "emote_entry bad = Inr None"
    by (auto simp: emote_entry_no_colon emote_entry_colon)
  then have none: "entry_of bad = None" by (simp add: entry_of_def)
  have "\<forall>e\<in>set (js_split CHR ''/'' s). CHR ''/'' \<notin> set e"
    by (simp add: js_split_parts_no_sep)
  with assms(1) have "\<forall>e\<in>set (es1 @ es2). CHR ''/'' \<notin> set e" by simp
  then have "parseEmoteOffsets (Some (join CHR ''/'' (es1 @ es2))) =
      Inr (new_Map (List.map_filter entry_of (es1 @ es2)))"
    by (rule parseEmoteOffsets_join)
  moreover have "parseEmoteOffsets (Some s) = Inr (new_Map (List.map_filter entry_of (es1 @ es2)))"
    by (simp add: parseEmoteOffsets_Some assms(1) map_filter_append List.map_filter_simps none)
  ultimately show ?thesis using bad by simp
qed

theorem parseEmoteOffsets_drops_entry_witness:
  "parseEmoteOffsets (Some ''25:0-4/1902:/33/7:6-10'') = parseEmoteOffsets (Some ''25:0-4/33/7:6-10'')
   \<and> parseEmoteOffsets (Some ''25:0-4/33/7:6-10'') = parseEmoteOffsets (Some ''25:0-4/7:6-10'')
   \<and> parseEmoteOffsets (Some ''25:0-4/7:6-10'') = Inr [(''25'', [''0-4'']), (''7'', [''6-10''])]
   \<and> parseEmoteOffsets (Some ''25:'') = Inr [] \<and> parseEmoteOffsets (Some ''25'') = Inr []"
proof -
  have s1: "js_split CHR ''/'' ''25:0-4/1902:/33/7:6-10'' = [''25:0-4''] @ ''1902:'' # [''33'', ''7:6-10'']"
    by code_simp
  have b1: "CHR '':'' \<notin> set ''1902:'' \<or> (\<exists>i. ''1902:'' = i @ [CHR '':''] \<and> CHR '':'' \<notin> set i)"
    by simp
  have s2: "js_split CHR ''/'' ''25:0-4/33/7:6-10'' = [''25:0-4''] @ ''33'' # [''7:6-10'']"
    by code_simp
  have b2: "CHR '':'' \<notin> set ''33'' \<or> (\<exists>i. ''33'' = i @ [CHR '':''] \<and> CHR '':'' \<notin> set i)"
    by simp
  have s3: "js_split CHR ''/'' ''25:'' = [] @ ''25:'' # []"
    by code_simp
  have b3: "CHR '':'' \<notin> set ''25:'' \<or> (\<exists>i. ''25:'' = i @ [CHR '':''] \<and> CHR '':'' \<notin> set i)"
    by simp
  have s4: "js_split CHR ''/'' ''25'' = [] @ ''25'' # []"
    by code_simp
  have b4: "CHR '':'' \<notin> set ''25'' \<or> (\<exists>i. ''25'' = i @ [CHR '':''] \<and> CHR '':'' \<notin> set i)"
    by simp
  have e: "parseEmoteOffsets (Some ''25:0-4/7:6-10'') = Inr [(''25'', [''0-4'']), (''7'', [''6-10''])]"
    by code_simp
  have n: "parseEmoteOffsets (Some []) = Inr []"
    by code_simp
  show ?thesis
    using parseEmoteOffsets_drops_entry [OF s1 b1] parseEmoteOffsets_drops_entry [OF s2 b2]
      parseEmoteOffsets_drops_entry [OF s3 b3] parseEmoteOffsets_drops_entry [OF s4 b4] e n
    by simp
qed

text \<open>
  C4, as the code has it: when several entries of the input carry the same emoteId, the
  result maps that emoteId to the placements of the last of them that the parser accepts,
  that is the last one with a non-empty placements segment. For every input string, an
  accepted entry \<open>e\<close> with emoteId \<open>k\<close> and placements \<open>ps\<close> that no later accepted
  entry with emoteId \<open>k\<close> follows decides the value of \<open>k\<close>, whatever the entries
  before it are; such an entry is the text \<open>k\<close> without colon, a colon, and a non-empty
  placements segment that \<open>ps\<close> is split from. An entry that is dropped overwrites
  nothing.
\<close>

theorem parseEmoteOffsets_last_wins:
  assumes "js_split CHR ''/'' s = es1 @ e # es2"
    and "emote_entry e = Inr (Some (k, ps))"
    and "\<forall>e'\<in>set es2. \<forall>ps'. emote_entry e' \<noteq> Inr (Some (k, ps'))"
  shows "(\<exists>m. parseEmoteOffsets (Some s) = Inr m \<and> Map_get m k = Some ps)
    \<and> (\<exists>rest. e = k @ CHR '':'' # rest \<and> CHR '':'' \<notin> set k
          \<and> takeWhile (\<lambda>c. c \<noteq> CHR '':'') rest \<noteq> []
          \<and> ps = js_split CHR '','' (takeWhile (\<lambda>c. c \<noteq> CHR '':'') rest))"
proof -
  from assms(2) have e: "entry_of e = Some (k, ps)" by (simp add: entry_of_def)
  have "k \<notin> fst ` set (List.map_filter entry_of es2)"
  proof
    assume "k \<in> fst ` set (List.map_filter entry_of es2)"
    then obtain ps' e' where "e' \<in> set es2" "entry_of e' = Some (k, ps')"
      by (auto simp: List.map_filter_def)
    then have "e' \<in> set es2" "emote_entry e' = Inr (Some (k, ps'))"
      by (simp_all add: emote_entry_total)
    with assms(3) show False by blast
  qed
  then have later: "map_of (rev (List.map_filter entry_of es2)) k = None"
    by (simp add: map_of_eq_None_iff)
  have "Map_get (new_Map (List.map_filter entry_of (es1 @ e # es2))) k = Some ps"
    by (simp add: Map_get_new_Map map_filter_append List.map_filter_simps e map_add_def later)
  then have "\<exists>m. parseEmoteOffsets (Some s) = Inr m \<and> Map_get m k = Some ps"
    by (simp add: parseEmoteOffsets_Some assms(1))
  moreover from assms(2)
  have "\<exists>rest. e = k @ CHR '':'' # rest \<and> CHR '':'' \<notin> set k
      \<and> takeWhile (\<lambda>c. c \<noteq> CHR '':'') rest \<noteq> []
      \<and> ps = js_split CHR '','' (takeWhile (\<lambda>c. c \<noteq> CHR '':'') rest)"
    by (simp only: emote_entry_Some_iff)
  ultimately show ?thesis by (rule conjI)
qed

theorem parseEmoteOffsets_last_wins_witness:
  "parseEmoteOffsets (Some ''25:0-4/25:6-10'') = Inr [(''25'', [''6-10''])]
   \<and> Map_get [(''25'', [''6-10''])] ''25'' = Some [''6-10'']
   \<and> (\<exists>m. parseEmoteOffsets (Some ''25:0-4/7:1-2/25:6-10,8-9/7:3-4/25'') = Inr m
          \<and> Map_get m ''25'' = Some [''6-10'', ''8-9''])"
proof -
  have s: "js_split CHR ''/'' ''25:0-4/25:6-10'' = [''25:0-4''] @ ''25:6-10'' # []"
    by code_simp
  have e: "emote_entry ''25:6-10'' = Inr (Some (''25'', [''6-10'']))"
    by code_simp
  have l: "\<forall>e'\<in>set []. \<forall>ps'. emote_entry e' \<noteq> Inr (Some (''25'', ps'))"
    by simp
  have v: "parseEmoteOffsets (Some ''25:0-4/25:6-10'') = Inr [(''25'', [''6-10''])]"
    by code_simp
  have s': "js_split CHR ''/'' ''25:0-4/7:1-2/25:6-10,8-9/7:3-4/25'' =
      [''25:0-4'', ''7:1-2''] @ ''25:6-10,8-9'' # [''7:3-4'', ''25'']"
    by code_simp
  have e': "emote_entry ''25:6-10,8-9'' = Inr (Some (''25'', [''6-10'', ''8-9'']))"
    by code_simp
  have l1: "emote_entry ''7:3-4'' = Inr (Some (''7'', [''3-4'']))"
    by code_simp
  have l2: "emote_entry ''25'' = Inr None"
    by code_simp
  have l': "\<forall>e'\<in>set [''7:3-4'', ''25'']. \<forall>ps'. emote_entry e' \<noteq> Inr (Some (''25'', ps'))"
    by (simp add: l1 l2)
  from conjunct1 [OF parseEmoteOffsets_last_wins [OF s e l]]
    conjunct1 [OF parseEmoteOffsets_last_wins [OF s' e' l']] v
  show ?thesis
    by (simp add: Map_get_def)
qed

text \<open>
  C4 as it is stated (the placements of the last entry with that emoteId) fails when that
  last entry is dropped: in \<open>"25:0-4/25:"\<close> both entries have the emoteId \<open>25\<close>, the last
  one has an empty placements segment, and the result maps \<open>25\<close> to the placements of
  the first.
\<close>

theorem parseEmoteOffsets_last_wins_counterexample:
  "js_split CHR ''/'' ''25:0-4/25:'' = [''25:0-4'', ''25:'']
   \<and> js_split_limit CHR '':'' 2 ''25:0-4'' = [''25'', ''0-4'']
   \<and> js_split_limit CHR '':'' 2 ''25:'' = [''25'', []]
   \<and> parseEmoteOffsets (Some ''25:0-4/25:'') = Inr [(''25'', [''0-4''])]
   \<and> Map_get [(''25'', [''0-4''])] ''25'' = Some [''0-4'']"
  by code_simp

text \<open>
  C7: for every entry with more than one colon, the emoteId is the text before the first
  colon, the placements segment is the text strictly between the first and the second
  colon, and the text from the second colon on contributes nothing: the entry is parsed as
  the entry cut before its second colon is, and so is the whole input.
\<close>

theorem parseEmoteOffsets_two_parts:
  assumes "js_split CHR ''/'' s = es1 @ (i @ CHR '':'' # p @ CHR '':'' # junk) # es2"
    and "CHR '':'' \<notin> set i" and "CHR '':'' \<notin> set p"
  shows "emote_entry (i @ CHR '':'' # p @ CHR '':'' # junk) =
      Inr (if p = [] then None else Some (i, js_split CHR '','' p))
    \<and> emote_entry (i @ CHR '':'' # p @ CHR '':'' # junk) = emote_entry (i @ CHR '':'' # p)
    \<and> parseEmoteOffsets (Some s) =
        parseEmoteOffsets (Some (join CHR ''/'' (es1 @ (i @ CHR '':'' # p) # es2)))"
proof -
  let ?long = "i @ CHR '':'' # p @ CHR '':'' # junk" and ?short = "i @ CHR '':'' # p"
  have t: "takeWhile (\<lambda>c. c \<noteq> CHR '':'') (p @ CHR '':'' # junk) = p"
    using assms(3) by (induction p) auto
  have long: "emote_entry ?long = Inr (if p = [] then None else Some (i, js_split CHR '','' p))"
    by (simp add: emote_entry_colon [OF assms(2)] t)
  have short: "emote_entry ?short = Inr (if p = [] then None else Some (i, js_split CHR '','' p))"
    by (simp add: emote_entry_colon [OF assms(2)] takeWhile_no_sep [OF assms(3)])
  from long short have same: "entry_of ?long = entry_of ?short" by (simp add: entry_of_def)
  have parts: "\<forall>e\<in>set (js_split CHR ''/'' s). CHR ''/'' \<notin> set e"
    by (simp add: js_split_parts_no_sep)
  with assms(1) have "CHR ''/'' \<notin> set ?long" by simp
  then have "CHR ''/'' \<notin> set ?short" by simp
  with parts assms(1) have "\<forall>e\<in>set (es1 @ ?short # es2). CHR ''/'' \<notin> set e" by simp
  then have "parseEmoteOffsets (Some (join CHR ''/'' (es1 @ ?short # es2))) =
      Inr (new_Map (List.map_filter entry_of (es1 @ ?short # es2)))"
    by (rule parseEmoteOffsets_join)
  moreover have "parseEmoteOffsets (Some s) =
      Inr (new_Map (List.map_filter entry_of (es1 @ ?short # es2)))"
    by (simp add: parseEmoteOffsets_Some assms(1) map_filter_append List.map_filter_simps same)
  ultimately show ?thesis using long short by simp
qed

theorem parseEmoteOffsets_two_parts_witness:
  "parseEmoteOffsets (Some ''25:0-4:junk'') = Inr [(''25'', [''0-4''])]
   \<and> parseEmoteOffsets (Some ''1:2-3/25:0-4,7-9:ju:nk,x/8:1-1'') =
       Inr [(''1'', [''2-3'']), (''25'', [''0-4'', ''7-9'']), (''8'', [''1-1''])]"
proof -
  have s1: "js_split CHR ''/'' ''25:0-4:junk'' = [] @ (''25'' @ CHR '':'' # ''0-4'' @ CHR '':'' # ''junk'') # []"
    by code_simp
  have s2: "js_split CHR ''/'' ''1:2-3/25:0-4,7-9:ju:nk,x/8:1-1'' =
      [''1:2-3''] @ (''25'' @ CHR '':'' # ''0-4,7-9'' @ CHR '':'' # ''ju:nk,x'') # [''8:1-1'']"
    by code_simp
  have c1: "CHR '':'' \<notin> set ''25''" and c2: "CHR '':'' \<notin> set ''0-4''"
    and c3: "CHR '':'' \<notin> set ''0-4,7-9''"
    by simp_all
  have e1: "parseEmoteOffsets (Some ''25:0-4'') = Inr [(''25'', [''0-4''])]"
    by code_simp
  have e2: "parseEmoteOffsets (Some ''1:2-3/25:0-4,7-9/8:1-1'') =
      Inr [(''1'', [''2-3'']), (''25'', [''0-4'', ''7-9'']), (''8'', [''1-1''])]"
    by code_simp
  show ?thesis
    using parseEmoteOffsets_two_parts [OF s1 c1 c2] parseEmoteOffsets_two_parts [OF s2 c1 c3] e1 e2
    by simp
qed

text \<open>
  C8: parseEmoteOffsets is total: for every input, absent or any string, it returns a map
  (with pairwise different keys) and throws no error. The two places that could throw, the
  calls of \<open>split\<close> on a value that may be \<open>undefined\<close>, are never reached with
  \<open>undefined\<close>.
\<close>

theorem parseEmoteOffsets_total:
  "\<exists>m. parseEmoteOffsets emotes = Inr m \<and> distinct (Map_keys m)"
proof (cases emotes)
  case None
  then show ?thesis
    by (simp add: parseEmoteOffsets_def falsy_def new_Map_Nil Map_keys_def)
next
  case (Some s)
  then show ?thesis
    by (simp add: parseEmoteOffsets_Some distinct_Map_keys_new_Map)
qed

theorem parseEmoteOffsets_total_witness:
  "\<exists>m. parseEmoteOffsets (Some ''25:0-4:junk/x/:/25:'') = Inr m \<and> distinct (Map_keys m)"
  by (rule parseEmoteOffsets_total)

text \<open>
  C5: applied to an absent (undefined) input and applied to the empty string,
  parseEmoteOffsets returns the empty map \<open>new Map()\<close>, which has no key.
\<close>

theorem parseEmoteOffsets_absent_or_empty:
  "parseEmoteOffsets None = Inr (new_Map []) \<and> parseEmoteOffsets (Some []) = Inr (new_Map [])
   \<and> Map_keys (new_Map [] :: (string, string list) js_map) = []"
  by (simp add: parseEmoteOffsets_def falsy_def new_Map_Nil Map_keys_def)

theorem parseEmoteOffsets_absent_or_empty_witness:
  "parseEmoteOffsets None = parseEmoteOffsets (Some [])"
  using parseEmoteOffsets_absent_or_empty by simp

section \<open>Claims about the sweep\<close>

text \<open>
  C2: over every finite sequence of records the source yields and for every optional
  predicate, the sweep calls \<open>unsubscribe\<close> only on records for which no predicate was
  given or the predicate holds, in the order the source yields them and without leaving
  one out: in every run the records unsubscribed are a starting piece of the selected
  records, and in a run that completes they are all of them. The calls are really made:
  the outside world the sweep ends in is the one that the \<open>unsubscribe\<close> actions of
  exactly these records, applied one after the other in that order, lead to. The actions
  of a complete run are, record after record, the request of the record, the evaluation of
  the predicate (when one was given) and the awaited call of \<open>unsubscribe\<close> (when the
  record is selected), so the next record is requested only after that call has returned.
  The sweep completes when no \<open>unsubscribe\<close> fails. Under the predicate of
  \<open>deleteBrokenSubscriptions\<close>, in every run, complete or not and whatever the source
  gives, a record whose status is \<open>enabled\<close> or
  \<open>webhook_callback_verification_pending\<close> is never unsubscribed, and a complete run
  unsubscribes exactly the records with any other status.
\<close>

theorem sweep_unsubscribes_selected:
  assumes "deleteSubscriptionsWithCondition cond unsubscribe (map Inr xs) w = (r, w', tr)"
  shows "(\<exists>n. unsubscribed tr = take n (filter (selected cond) xs))
    \<and> w' = foldl (\<lambda>v sub. snd (unsubscribe sub v)) w (unsubscribed tr)
    \<and> (r = None \<longrightarrow>
         tr = concat (map (record_actions cond) xs) @ [Request_next]
         \<and> unsubscribed tr = filter (selected cond) xs
         \<and> w' = foldl (\<lambda>v sub. snd (unsubscribe sub v)) w (filter (selected cond) xs))
    \<and> ((\<forall>sub v. fst (unsubscribe sub v) = None) \<longrightarrow> r = None)
    \<and> (deleteBrokenSubscriptions unsubscribe' src w0 = (r1, w1, tr1)
         \<and> (status s = ''enabled'' \<or> status s = ''webhook_callback_verification_pending'') \<longrightarrow>
         Unsubscribe s \<notin> set tr1)
    \<and> (deleteBrokenSubscriptions unsubscribe' (map Inr ys) w0 = (None, w2, tr2) \<longrightarrow>
         unsubscribed tr2 =
           filter (\<lambda>sub. status sub \<noteq> ''enabled''
             \<and> status sub \<noteq> ''webhook_callback_verification_pending'') ys
         \<and> w2 = foldl (\<lambda>v sub. snd (unsubscribe' sub v)) w0
             (filter (\<lambda>sub. status sub \<noteq> ''enabled''
               \<and> status sub \<noteq> ''webhook_callback_verification_pending'') ys))"
proof -
  from assms have run: "for_await cond unsubscribe (map Inr xs) (w, []) = (r, w', tr)"
    by (simp add: deleteSubscriptionsWithCondition_def)
  have p1: "\<exists>n. unsubscribed tr = take n (filter (selected cond) xs)"
    using for_await_unsubscribed_prefix [OF run] by simp
  have p2: "w' = foldl (\<lambda>v sub. snd (unsubscribe sub v)) w (unsubscribed tr)"
    using for_await_world [OF run] by simp
  have p3: "tr = concat (map (record_actions cond) xs) @ [Request_next]
      \<and> unsubscribed tr = filter (selected cond) xs
      \<and> w' = foldl (\<lambda>v sub. snd (unsubscribe sub v)) w (filter (selected cond) xs)"
    if "r = None"
  proof -
    from run that have "for_await cond unsubscribe (map Inr xs) (w, []) = (None, w', tr)"
      by simp
    then show ?thesis by (rule for_await_complete)
  qed
  have p4: "r = None" if "\<forall>sub v. fst (unsubscribe sub v) = None"
    using for_await_no_failure [OF that, of cond xs "(w, [])"] run by simp
  have p5: "Unsubscribe s \<notin> set tr1"
    if a: "deleteBrokenSubscriptions unsubscribe' src w0 = (r1, w1, tr1)
      \<and> (status s = ''enabled'' \<or> status s = ''webhook_callback_verification_pending'')"
  proof
    assume "Unsubscribe s \<in> set tr1"
    with a have "selected (Some (\<lambda>sub. status sub \<noteq> ''enabled''
        \<and> status sub \<noteq> ''webhook_callback_verification_pending'')) s"
      unfolding deleteBrokenSubscriptions_def deleteSubscriptionsWithCondition_def
      by (auto dest: for_await_sound)
    with a show False by (auto simp: selected_def)
  qed
  have p6: "unsubscribed tr2 =
        filter (\<lambda>sub. status sub \<noteq> ''enabled''
          \<and> status sub \<noteq> ''webhook_callback_verification_pending'') ys
      \<and> w2 = foldl (\<lambda>v sub. snd (unsubscribe' sub v)) w0
          (filter (\<lambda>sub. status sub \<noteq> ''enabled''
            \<and> status sub \<noteq> ''webhook_callback_verification_pending'') ys)"
    if b: "deleteBrokenSubscriptions unsubscribe' (map Inr ys) w0 = (None, w2, tr2)"
  proof -
    let ?broken = "Some (\<lambda>sub. status sub \<noteq> ''enabled''
        \<and> status sub \<noteq> ''webhook_callback_verification_pending'')"
    from b have run2: "for_await ?broken unsubscribe' (map Inr ys) (w0, []) = (None, w2, tr2)"
      by (simp add: deleteBrokenSubscriptions_def deleteSubscriptionsWithCondition_def)
    have sel: "selected ?broken = (\<lambda>sub. status sub \<noteq> ''enabled''
        \<and> status sub \<noteq> ''webhook_callback_verification_pending'')"
      by (simp add: fun_eq_iff selected_def)
    from for_await_complete [OF run2] show ?thesis
      unfolding sel by blast
  qed
  show ?thesis
  proof (intro conjI impI)
    show "\<exists>n. unsubscribed tr = take n (filter (selected cond) xs)" by (rule p1)
    show "w' = foldl (\<lambda>v sub. snd (unsubscribe sub v)) w (unsubscribed tr)" by (rule p2)
    show "tr = concat (map (record_actions cond) xs) @ [Request_next]" if "r = None"
      using p3 [OF that] by blast
    show "unsubscribed tr = filter (selected cond) xs" if "r = None"
      using p3 [OF that] by blast
    show "w' = foldl (\<lambda>v sub. snd (unsubscribe sub v)) w (filter (selected cond) xs)"
      if "r = None"
      using p3 [OF that] by blast
    show "r = None" if "\<forall>sub v. fst (unsubscribe sub v) = None"
      using that by (rule p4)
    show "Unsubscribe s \<notin> set tr1"
      if "deleteBrokenSubscriptions unsubscribe' src w0 = (r1, w1, tr1)
        \<and> (status s = ''enabled'' \<or> status s = ''webhook_callback_verification_pending'')"
      using that by (rule p5)
    show "unsubscribed tr2 =
        filter (\<lambda>sub. status sub \<noteq> ''enabled''
          \<and> status sub \<noteq> ''webhook_callback_verification_pending'') ys"
      if "deleteBrokenSubscriptions unsubscribe' (map Inr ys) w0 = (None, w2, tr2)"
      using p6 [OF that] by blast
    show "w2 = foldl (\<lambda>v sub. snd (unsubscribe' sub v)) w0
          (filter (\<lambda>sub. status sub \<noteq> ''enabled''
            \<and> status sub \<noteq> ''webhook_callback_verification_pending'') ys)"
      if "deleteBrokenSubscriptions unsubscribe' (map Inr ys) w0 = (None, w2, tr2)"
      using p6 [OF that] by blast
  qed
qed

theorem sweep_unsubscribes_selected_witness:
  "deleteBrokenSubscriptions (\<lambda>sub w. (None, w @ [sub_id sub]))
        (map Inr (concat
           [[\<lparr>sub_id = ''a'', status = ''authorization_revoked''\<rparr>,
             \<lparr>sub_id = ''b'', status = ''user_removed''\<rparr>],
            [\<lparr>sub_id = ''c'', status = ''notification_failures_exceeded''\<rparr>,
             \<lparr>sub_id = ''d'', status = ''enabled''\<rparr>],
            [\<lparr>sub_id = ''e'', status = ''webhook_callback_verification_failed''\<rparr>]])) []
     = (None, [''a'', ''b'', ''c'', ''e''],
         [Request_next, Eval_cond \<lparr>sub_id = ''a'', status = ''authorization_revoked''\<rparr>,
            Unsubscribe \<lparr>sub_id = ''a'', status = ''authorization_revoked''\<rparr>,
          Request_next, Eval_cond \<lparr>sub_id = ''b'', status = ''user_removed''\<rparr>,
            Unsubscribe \<lparr>sub_id = ''b'', status = ''user_removed''\<rparr>,
          Request_next, Eval_cond \<lparr>sub_id = ''c'', status = ''notification_failures_exceeded''\<rparr>,
            Unsubscribe \<lparr>sub_id = ''c'', status = ''notification_failures_exceeded''\<rparr>,
          Request_next, Eval_cond \<lparr>sub_id = ''d'', status = ''enabled''\<rparr>,
          Request_next, Eval_cond \<lparr>sub_id = ''e'', status = ''webhook_callback_verification_failed''\<rparr>,
            Unsubscribe \<lparr>sub_id = ''e'', status = ''webhook_callback_verification_failed''\<rparr>,
          Request_next])
   \<and> deleteBrokenSubscriptions (\<lambda>sub w. (None, w @ [sub_id sub]))
        (map Inr
           [\<lparr>sub_id = ''f'', status = ''webhook_callback_verification_pending''\<rparr>,
            \<lparr>sub_id = ''a'', status = ''authorization_revoked''\<rparr>]) []
     = (None, [''a''],
         [Request_next, Eval_cond \<lparr>sub_id = ''f'', status = ''webhook_callback_verification_pending''\<rparr>,
          Request_next, Eval_cond \<lparr>sub_id = ''a'', status = ''authorization_revoked''\<rparr>,
            Unsubscribe \<lparr>sub_id = ''a'', status = ''authorization_revoked''\<rparr>,
          Request_next])"
proof -
  let ?broken = "Some (\<lambda>sub :: HelixEventSubSubscription.
      status sub \<noteq> ''enabled'' \<and> status sub \<noteq> ''webhook_callback_verification_pending'')"
  let ?u = "\<lambda>(sub :: HelixEventSubSubscription) w. (None :: js_error option, w @ [sub_id sub])"
  let ?a = "\<lparr>sub_id = ''a'', status = ''authorization_revoked''\<rparr>"
  let ?b = "\<lparr>sub_id = ''b'', status = ''user_removed''\<rparr>"
  let ?c = "\<lparr>sub_id = ''c'', status = ''notification_failures_exceeded''\<rparr>"
  let ?d = "\<lparr>sub_id = ''d'', status = ''enabled''\<rparr>"
  let ?e = "\<lparr>sub_id = ''e'', status = ''webhook_callback_verification_failed''\<rparr>"
  let ?f = "\<lparr>sub_id = ''f'', status = ''webhook_callback_verification_pending''\<rparr>"
  let ?xs = "concat [[?a, ?b], [?c, ?d], [?e]]"
  let ?ys = "[?f, ?a]"
  let ?tr = "[Request_next, Eval_cond ?a, Unsubscribe ?a, Request_next, Eval_cond ?b, Unsubscribe ?b,
      Request_next, Eval_cond ?c, Unsubscribe ?c, Request_next, Eval_cond ?d,
      Request_next, Eval_cond ?e, Unsubscribe ?e, Request_next]"
  let ?tr2 = "[Request_next, Eval_cond ?f, Request_next, Eval_cond ?a, Unsubscribe ?a, Request_next]"
  have run: "deleteSubscriptionsWithCondition ?broken ?u (map Inr ?xs) [] =
      (None, [''a'', ''b'', ''c'', ''e''], ?tr)"
    by (simp add: deleteSubscriptionsWithCondition_def loop_body_def await_unsubscribe_def)
  have run2: "deleteBrokenSubscriptions ?u (map Inr ?ys) [] = (None, [''a''], ?tr2)"
    by (simp add: deleteBrokenSubscriptions_def deleteSubscriptionsWithCondition_def loop_body_def
        await_unsubscribe_def)
  note all = sweep_unsubscribes_selected [OF run, where unsubscribe' = ?u and ys = ?ys
      and ?w0.0 = "[]" and ?w2.0 = "[''a'']" and ?tr2.0 = ?tr2 and src = "map Inr ?ys"
      and ?r1.0 = None and ?w1.0 = "[''a'']" and ?tr1.0 = ?tr2 and s = ?f]
  have world: "[''a'', ''b'', ''c'', ''e''] = foldl (\<lambda>v sub. snd (?u sub v)) [] (unsubscribed ?tr)"
    by (rule conjunct1 [OF conjunct2 [OF all]])
  have "deleteBrokenSubscriptions ?u (map Inr ?ys) [] = (None, [''a''], ?tr2)
      \<and> (status ?f = ''enabled'' \<or> status ?f = ''webhook_callback_verification_pending'')"
    using run2 by simp
  then have pending: "Unsubscribe ?f \<notin> set ?tr2"
    by (rule mp [OF conjunct1 [OF conjunct2 [OF conjunct2 [OF conjunct2 [OF conjunct2 [OF all]]]]]])
  have broken: "unsubscribed ?tr2 =
        filter (\<lambda>sub. status sub \<noteq> ''enabled''
          \<and> status sub \<noteq> ''webhook_callback_verification_pending'') ?ys
      \<and> [''a''] = foldl (\<lambda>v sub. snd (?u sub v)) []
          (filter (\<lambda>sub. status sub \<noteq> ''enabled''
            \<and> status sub \<noteq> ''webhook_callback_verification_pending'') ?ys)"
    by (rule mp [OF conjunct2 [OF conjunct2 [OF conjunct2 [OF conjunct2 [OF conjunct2 [OF all]]]]]
          run2])
  from run have run': "deleteBrokenSubscriptions ?u (map Inr ?xs) [] =
      (None, [''a'', ''b'', ''c'', ''e''], ?tr)"
    by (simp only: deleteBrokenSubscriptions_def)
  from world pending broken run' run2 show ?thesis
    by (simp only: simp_thms)
qed

text \<open>
  C6: for every sequence of records and every position in it, when the records before that
  position have been processed without failure and the source then fails to give the next
  record, or \<open>unsubscribe\<close> fails on the selected record at that position, the sweep ends
  with that failure as its outcome. Whatever follows in the source (\<open>rest\<close>,
  \<open>rest'\<close>) has no part in the result: the actions taken are those of the records up to
  the failure, with no later request, evaluation of the predicate or call of
  \<open>unsubscribe\<close>.
\<close>

theorem sweep_aborts_on_failure:
  assumes "deleteSubscriptionsWithCondition cond unsubscribe (map Inr xs) w = (None, w1, tr1)"
  shows "deleteSubscriptionsWithCondition cond unsubscribe (map Inr xs @ Inl e # rest) w =
      (Some e, w1, concat (map (record_actions cond) xs) @ [Request_next])
    \<and> (selected cond s \<and> unsubscribe s w1 = (Some e', w2) \<longrightarrow>
        deleteSubscriptionsWithCondition cond unsubscribe (map Inr xs @ Inr s # rest') w =
          (Some e', w2, concat (map (record_actions cond) xs) @ record_actions cond s))"
proof -
  from assms have run: "for_await cond unsubscribe (map Inr xs) (w, []) = (None, w1, tr1)"
    by (simp add: deleteSubscriptionsWithCondition_def)
  then have "tr1 = [] @ concat (map (record_actions cond) xs) @ [Request_next]"
    by (rule for_await_success_trace)
  then have tr1: "tr1 = concat (map (record_actions cond) xs) @ [Request_next]" by simp
  have src: "for_await cond unsubscribe (map Inr xs @ Inl e # rest) (w, []) = (Some e, w1, tr1)"
    using for_await_prefix [OF run, of "Inl e" rest] by simp
  have rec: "for_await cond unsubscribe (map Inr xs @ Inr s # rest') (w, []) =
      (Some e', w2, concat (map (record_actions cond) xs) @ record_actions cond s)"
    if sel: "selected cond s" and fail: "unsubscribe s w1 = (Some e', w2)"
    using for_await_prefix [OF run, of "Inr s" rest']
      loop_body_selected [of cond s unsubscribe w1 "Some e'" w2 tr1, OF sel fail] sel
    by (simp add: tr1 record_actions_def)
  from src rec show ?thesis
    by (simp add: deleteSubscriptionsWithCondition_def tr1)
qed

theorem sweep_aborts_on_failure_witness:
  "deleteAllSubscriptions
     (\<lambda>sub w. if sub_id sub = ''b'' then (Some (Error ''gone''), w) else (None, w @ [sub_id sub]))
     [Inr \<lparr>sub_id = ''a'', status = ''authorization_revoked''\<rparr>, Inr \<lparr>sub_id = ''b'', status = ''user_removed''\<rparr>,
      Inr \<lparr>sub_id = ''c'', status = ''notification_failures_exceeded''\<rparr>, Inr \<lparr>sub_id = ''d'', status = ''enabled''\<rparr>] []
   = (Some (Error ''gone''), [''a''],
       [Request_next, Unsubscribe \<lparr>sub_id = ''a'', status = ''authorization_revoked''\<rparr>,
        Request_next, Unsubscribe \<lparr>sub_id = ''b'', status = ''user_removed''\<rparr>])
   \<and> deleteAllSubscriptions
     (\<lambda>sub w. if sub_id sub = ''b'' then (Some (Error ''gone''), w) else (None, w @ [sub_id sub]))
     [Inr \<lparr>sub_id = ''a'', status = ''authorization_revoked''\<rparr>, Inl (Error ''page''),
      Inr \<lparr>sub_id = ''c'', status = ''notification_failures_exceeded''\<rparr>] []
   = (Some (Error ''page''), [''a''],
       [Request_next, Unsubscribe \<lparr>sub_id = ''a'', status = ''authorization_revoked''\<rparr>, Request_next])"
proof -
  let ?u = "\<lambda>(sub :: HelixEventSubSubscription) w.
      if sub_id sub = ''b'' then (Some (Error ''gone''), w) else (None, w @ [sub_id sub])"
  let ?a = "\<lparr>sub_id = ''a'', status = ''authorization_revoked''\<rparr>"
  let ?b = "\<lparr>sub_id = ''b'', status = ''user_removed''\<rparr>"
  have first: "deleteSubscriptionsWithCondition None ?u (map Inr [?a]) [] =
      (None, [''a''], [Request_next, Unsubscribe ?a, Request_next])"
    by (simp add: deleteSubscriptionsWithCondition_def loop_body_def await_unsubscribe_def)
  have fail: "selected None ?b \<and> ?u ?b [''a''] = (Some (Error ''gone''), [''a''])"
    by (simp add: selected_def)
  from sweep_aborts_on_failure [OF first, where s = ?b and e' = "Error ''gone''" and ?w2.0 = "[''a'']"
      and e = "Error ''page''" and rest = "[Inr \<lparr>sub_id = ''c'', status = ''notification_failures_exceeded''\<rparr>]"
      and rest' = "[Inr \<lparr>sub_id = ''c'', status = ''notification_failures_exceeded''\<rparr>, Inr \<lparr>sub_id = ''d'', status = ''enabled''\<rparr>]"] fail
  show ?thesis
    by (simp add: deleteAllSubscriptions_def record_actions_def selected_def)
qed

section \<open>Claims about createSubscription\<close>

text \<open>
  C10, as the code has it: a call of \<open>createSubscription\<close> throws before it issues any
  API request exactly when \<open>transport.method\<close> is not \<open>webhook\<close> and the user argument
  is falsy, that is absent (\<open>undefined\<close>) or a given value that counts as false, such as
  the empty string. In every other case the guard does not fire: exactly one request is
  issued, with the JSON body built from the arguments, and the outcome is the one of
  \<open>callApi\<close>.
\<close>

theorem createSubscription_guard:
  "(transport_method transport \<noteq> ''webhook'' \<and> not_user truthy user \<longrightarrow>
      createSubscription truthy extractUserId callApi type' version condition transport user
          requiredScopeSet isBatched =
        (Inl (Error (''Transport '' @ transport_method transport
                @ '' can only handle subscriptions with user context'')), []))
   \<and> (\<not> (transport_method transport \<noteq> ''webhook'' \<and> not_user truthy user) \<longrightarrow>
      (\<exists>request.
         createSubscription truthy extractUserId callApi type' version condition transport user
             requiredScopeSet isBatched =
           ((case callApi request of
               Inl e \<Rightarrow> Inl e
             | Inr data \<Rightarrow> Inr (case data of [] \<Rightarrow> None | d # _ \<Rightarrow> Some d)), [request])
         \<and> jsonBody request =
             \<lparr>body_type = type', body_version = version, body_condition = condition,
              body_transport = transport,
              is_batching_enabled = (if isBatched = Some True then Some True else None)\<rparr>))
   \<and> not_user truthy None
   \<and> not_user truthy (Some u) = (\<not> truthy u)"
  by (auto simp: createSubscription_def not_user_def Let_def split: sum.splits)

theorem createSubscription_guard_witness:
  "createSubscription (\<lambda>s. s \<noteq> []) id (\<lambda>request. Inr [''created''])
     ''stream.online'' ''1'' [(''broadcaster_user_id'', ''125328655'')]
       \<lparr>transport_method = ''websocket''\<rparr> None None None
     = (Inl (Error ''Transport websocket can only handle subscriptions with user context''), [])
   \<and> fst (createSubscription (\<lambda>s. s \<noteq> []) id (\<lambda>request. Inr [''created''])
     ''stream.online'' ''1'' [(''broadcaster_user_id'', ''125328655'')]
       \<lparr>transport_method = ''websocket''\<rparr> (Some ''125328655'')
       None None) = Inr (Some ''created'')
   \<and> length (snd (createSubscription (\<lambda>s. s \<noteq> []) id (\<lambda>request. Inr [''created''])
     ''stream.online'' ''1'' [(''broadcaster_user_id'', ''125328655'')]
       \<lparr>transport_method = ''webhook''\<rparr> None None None)) = 1"
  using
    createSubscription_guard [of "\<lparr>transport_method = ''websocket''\<rparr>" "\<lambda>s. s \<noteq> []" None
      id "\<lambda>request. Inr [''created'']" "''stream.online''" "''1''"
      "[(''broadcaster_user_id'', ''125328655'')]" None None]
    createSubscription_guard [of "\<lparr>transport_method = ''websocket''\<rparr>" "\<lambda>s. s \<noteq> []"
      "Some ''125328655''"
      id "\<lambda>request. Inr [''created'']" "''stream.online''" "''1''"
      "[(''broadcaster_user_id'', ''125328655'')]" None None]
    createSubscription_guard [of "\<lparr>transport_method = ''webhook''\<rparr>" "\<lambda>s. s \<noteq> []" None
      id "\<lambda>request. Inr [''created'']" "''stream.online''" "''1''"
      "[(''broadcaster_user_id'', ''125328655'')]" None None]
  by (auto simp: not_user_def)

text \<open>
  C10 as it is stated (the guard fires only when no user argument is supplied) fails: the
  guard also fires for a user argument that is given but falsy. With the empty string as
  user and a websocket transport the call throws and issues no request.
\<close>

theorem createSubscription_guard_counterexample:
  "Some '''' \<noteq> (None :: string option)
   \<and> createSubscription (\<lambda>s. s \<noteq> []) id (\<lambda>request. Inr [''created''])
     ''stream.online'' ''1'' [(''broadcaster_user_id'', ''125328655'')]
       \<lparr>transport_method = ''websocket''\<rparr> (Some '''') None None
     = (Inl (Error ''Transport websocket can only handle subscriptions with user context''), [])"
  by (simp add: createSubscription_def not_user_def)

end
